theory Spec2Isabelle
  imports Main "HOL-Library.Word"
begin

unbundle bit_operations_syntax

section \<open>Data model of allocator.c\<close>

text \<open>
  Addresses and \<^verbatim>\<open>size_t\<close> values are 64-bit words; \<^verbatim>\<open>NULL\<close> is address 0.
  Arithmetic on them wraps, as the C arithmetic does.
\<close>

type_synonym addr = "64 word"
type_synonym size_t = "64 word"

text \<open>
  \<^verbatim>\<open>struct mem_block\<close>, the header at the start of every block. The declaration
  lives in \<^verbatim>\<open>allocator.h\<close>; the fields are the ones \<^verbatim>\<open>allocator.c\<close> reads and writes.
  The \<^verbatim>\<open>name\<close> array is represented by the C string it holds (the characters before
  the first NUL).
\<close>

record mem_block =
  alloc_id :: "64 word"
  name :: string
  size_blk :: size_t
  usage :: size_t
  region_start :: addr
  region_size :: size_t
  next_blk :: addr

text \<open>
  What the code takes from its surroundings: \<^verbatim>\<open>sizeof(struct mem_block)\<close> and the
  capacity of the \<^verbatim>\<open>name\<close> array (both fixed by \<^verbatim>\<open>allocator.h\<close>), the result of
  \<^verbatim>\<open>getpagesize()\<close>, and the two environment variables read with \<^verbatim>\<open>getenv\<close>
  (\<open>None\<close> when unset).
\<close>

record env =
  sizeof_mem_block :: size_t
  name_capacity :: nat
  page_sz :: size_t
  ALLOCATOR_ALGORITHM :: "string option"
  ALLOCATOR_SCRIBBLE :: "string option"

text \<open>
  The process state: the globals \<^verbatim>\<open>g_head\<close> and \<^verbatim>\<open>g_allocations\<close>, the headers
  in memory (by address), the payload bytes, the regions currently mapped, and what
  \<^verbatim>\<open>perror\<close> wrote to the diagnostic stream.
\<close>

record state =
  g_head :: addr
  g_allocations :: "64 word"
  heap :: "addr \<rightharpoonup> mem_block"
  mem :: "addr \<Rightarrow> 8 word"
  mapped :: "(addr \<times> size_t) list"
  errlog :: "string list"

datatype fault = Segfault | NameOverflow | DivByZero

text \<open>Reading a header through a pointer: \<^verbatim>\<open>NULL\<close> and addresses holding no header fault.\<close>

definition load :: "state \<Rightarrow> addr \<Rightarrow> mem_block option" where
  "load st p = (if p = 0 then None else heap st p)"

definition store :: "state \<Rightarrow> addr \<Rightarrow> mem_block \<Rightarrow> state" where
  "store st p b = st\<lparr>heap := (heap st)(p \<mapsto> b)\<rparr>"

text \<open>The \<open>n\<close> bytes starting at \<open>p\<close>.\<close>

definition in_range :: "addr \<Rightarrow> size_t \<Rightarrow> addr \<Rightarrow> bool" where
  "in_range p n x = (x - p < n)"

definition memset :: "state \<Rightarrow> addr \<Rightarrow> 8 word \<Rightarrow> size_t \<Rightarrow> state" where
  "memset st p c n = st\<lparr>mem := (\<lambda>x. if in_range p n x then c else mem st x)\<rparr>"

definition memcpy :: "state \<Rightarrow> addr \<Rightarrow> addr \<Rightarrow> size_t \<Rightarrow> state" where
  "memcpy st dst src n =
     st\<lparr>mem := (\<lambda>x. if in_range dst n x then mem st (src + (x - dst)) else mem st x)\<rparr>"

definition perror :: "string \<Rightarrow> state \<Rightarrow> state" where
  "perror s st = st\<lparr>errlog := errlog st @ [s]\<rparr>"

section \<open>Placement policy\<close>

partial_function (option) first_fit_loop :: "state \<Rightarrow> size_t \<Rightarrow> addr \<Rightarrow> (fault + addr) option" where
  "first_fit_loop st sz current =
     (if current = 0 then Some (Inr 0)
      else case load st current of
             None \<Rightarrow> Some (Inl Segfault)
           | Some b \<Rightarrow>
               if size_blk b \<ge> sz + usage b then Some (Inr current)
               else first_fit_loop st sz (next_blk b))"

definition first_fit :: "state \<Rightarrow> size_t \<Rightarrow> (fault + addr) option" where
  "first_fit st sz = (if g_head st = 0 then Some (Inr 0) else first_fit_loop st sz (g_head st))"

partial_function (option) best_fit_loop ::
    "state \<Rightarrow> size_t \<Rightarrow> addr \<Rightarrow> addr \<Rightarrow> (fault + addr) option" where
  "best_fit_loop st sz current best =
     (if current = 0 then Some (Inr best)
      else case load st current of
             None \<Rightarrow> Some (Inl Segfault)
           | Some b \<Rightarrow>
               if size_blk b \<ge> sz + usage b then
                 (if best = 0 then best_fit_loop st sz (next_blk b) current
                  else case load st best of
                         None \<Rightarrow> Some (Inl Segfault)
                       | Some bb \<Rightarrow>
                           if size_blk b - usage b < size_blk bb - usage bb
                           then best_fit_loop st sz (next_blk b) current
                           else best_fit_loop st sz (next_blk b) best)
               else best_fit_loop st sz (next_blk b) best)"

definition best_fit :: "state \<Rightarrow> size_t \<Rightarrow> (fault + addr) option" where
  "best_fit st sz = (if g_head st = 0 then Some (Inr 0) else best_fit_loop st sz (g_head st) 0)"

partial_function (option) worst_fit_loop ::
    "state \<Rightarrow> size_t \<Rightarrow> addr \<Rightarrow> addr \<Rightarrow> (fault + addr) option" where
  "worst_fit_loop st sz current worst =
     (if current = 0 then Some (Inr worst)
      else case load st current of
             None \<Rightarrow> Some (Inl Segfault)
           | Some b \<Rightarrow>
               if size_blk b \<ge> sz + usage b then
                 (if worst = 0 then worst_fit_loop st sz (next_blk b) current
                  else case load st worst of
                         None \<Rightarrow> Some (Inl Segfault)
                       | Some wb \<Rightarrow>
                           if size_blk b - usage b > size_blk wb - usage wb
                           then worst_fit_loop st sz (next_blk b) current
                           else worst_fit_loop st sz (next_blk b) worst)
               else worst_fit_loop st sz (next_blk b) worst)"

definition worst_fit :: "state \<Rightarrow> size_t \<Rightarrow> (fault + addr) option" where
  "worst_fit st sz = (if g_head st = 0 then Some (Inr 0) else worst_fit_loop st sz (g_head st) 0)"

definition reuse :: "env \<Rightarrow> state \<Rightarrow> size_t \<Rightarrow> (fault + addr) option" where
  "reuse e st sz =
     (let algo = (case ALLOCATOR_ALGORITHM e of None \<Rightarrow> ''first_fit'' | Some a \<Rightarrow> a)
      in if algo = ''first_fit'' then first_fit st sz
         else if algo = ''best_fit'' then best_fit st sz
         else if algo = ''worst_fit'' then worst_fit st sz
         else Some (Inr 0))"

section \<open>Region acquisition\<close>

text \<open>The walk to the last header of the list, at the end of \<^verbatim>\<open>expand_heap\<close>.\<close>

partial_function (option) list_tail :: "state \<Rightarrow> addr \<Rightarrow> (fault + addr) option" where
  "list_tail st cur =
     (case load st cur of
        None \<Rightarrow> Some (Inl Segfault)
      | Some b \<Rightarrow> if next_blk b \<noteq> 0 then list_tail st (next_blk b) else Some (Inr cur))"

text \<open>
  \<open>mmap_ret\<close> is what the operating system answers if \<^verbatim>\<open>mmap\<close> is called: the address
  of the new mapping, or \<open>None\<close> for \<^verbatim>\<open>MAP_FAILED\<close>. A new anonymous mapping is
  zero-filled.
\<close>

definition expand_heap :: "env \<Rightarrow> addr option \<Rightarrow> state \<Rightarrow> size_t \<Rightarrow> (fault + state \<times> addr) option" where
  "expand_heap e mmap_ret st sz =
     (if page_sz e = 0 then Some (Inl DivByZero)
      else
        let num_pages = sz div page_sz e;
            num_pages = (if sz mod page_sz e \<noteq> 0 then num_pages + 1 else num_pages)
        in case mmap_ret of
             None \<Rightarrow> Some (Inr (perror ''mmap'' st, 0))
           | Some block \<Rightarrow>
               let st1 = (memset st block 0 (num_pages * page_sz e))
                           \<lparr>mapped := (block, num_pages * page_sz e) # mapped st\<rparr>;
                   st2 = (store st1 block
                           \<lparr>alloc_id = g_allocations st1, name = [],
                            size_blk = num_pages * page_sz e, usage = 0,
                            region_start = block, region_size = num_pages * page_sz e,
                            next_blk = 0\<rparr>)
                           \<lparr>g_allocations := g_allocations st1 + 1\<rparr>
               in if g_head st2 = 0 then Some (Inr (st2\<lparr>g_head := block\<rparr>, block))
                  else case list_tail st2 (g_head st2) of
                         None \<Rightarrow> None
                       | Some (Inl f) \<Rightarrow> Some (Inl f)
                       | Some (Inr cur) \<Rightarrow>
                           (case load st2 cur of
                              None \<Rightarrow> Some (Inl Segfault)
                            | Some cb \<Rightarrow>
                                Some (Inr (store st2 cur (cb\<lparr>next_blk := block\<rparr>), block))))"

section \<open>Allocation\<close>

definition align8 :: "size_t \<Rightarrow> size_t" where
  "align8 sz = (if sz mod 8 \<noteq> 0 then sz + (8 - sz mod 8) else sz)"

text \<open>
  The two arms of \<^verbatim>\<open>malloc_unsafe\<close> after a block has been chosen: use a free block
  as it is, or split the chosen block at its used end.
\<close>

definition place :: "state \<Rightarrow> addr \<Rightarrow> mem_block \<Rightarrow> size_t \<Rightarrow> state \<times> addr" where
  "place st allocated a actual_size =
     (if usage a = 0 then (store st allocated (a\<lparr>usage := actual_size\<rparr>), allocated)
      else
        let new = allocated + usage a;
            st1 = (store st new
                     \<lparr>alloc_id = g_allocations st, name = [],
                      size_blk = size_blk a - usage a, usage = actual_size,
                      region_start = region_start a, region_size = region_size a,
                      next_blk = next_blk a\<rparr>)
                     \<lparr>g_allocations := g_allocations st + 1\<rparr>;
            st2 = store st1 allocated (a\<lparr>size_blk := usage a, next_blk := new\<rparr>)
        in (st2, new))"

text \<open>The block \<^verbatim>\<open>malloc_unsafe\<close> works on: the one \<^verbatim>\<open>reuse\<close> finds, else a new region.\<close>

definition choose_block :: "env \<Rightarrow> addr option \<Rightarrow> state \<Rightarrow> size_t \<Rightarrow> (fault + state \<times> addr) option" where
  "choose_block e mmap_ret st actual_size =
     (case reuse e st actual_size of
        None \<Rightarrow> None
      | Some (Inl f) \<Rightarrow> Some (Inl f)
      | Some (Inr r) \<Rightarrow>
          if r = 0 then expand_heap e mmap_ret st actual_size else Some (Inr (st, r)))"

definition malloc_unsafe :: "env \<Rightarrow> addr option \<Rightarrow> state \<Rightarrow> size_t \<Rightarrow> (fault + state \<times> addr) option" where
  "malloc_unsafe e mmap_ret st sz0 =
     (let sz = align8 sz0;
          actual_size = sz + sizeof_mem_block e
      in case choose_block e mmap_ret st actual_size of
           None \<Rightarrow> None
         | Some (Inl f) \<Rightarrow> Some (Inl f)
         | Some (Inr (st1, allocated)) \<Rightarrow>
             (case load st1 allocated of
                None \<Rightarrow> Some (Inl Segfault)
              | Some a \<Rightarrow>
                  let (st2, blk) = place st1 allocated a actual_size;
                      st3 = (if ALLOCATOR_SCRIBBLE e = Some ''1''
                             then memset st2 (blk + sizeof_mem_block e) 0xaa sz
                             else st2)
                  in Some (Inr (st3, blk + sizeof_mem_block e))))"

text \<open>The public entry: the mutex has no effect on the sequential state.\<close>

definition malloc :: "env \<Rightarrow> addr option \<Rightarrow> state \<Rightarrow> size_t \<Rightarrow> (fault + state \<times> addr) option" where
  "malloc e mmap_ret st sz = malloc_unsafe e mmap_ret st sz"



definition calloc :: "env \<Rightarrow> addr option \<Rightarrow> state \<Rightarrow> size_t \<Rightarrow> size_t \<Rightarrow> (fault + state \<times> addr) option" where
  "calloc e mmap_ret st nmemb sz =
     (case malloc_unsafe e mmap_ret st (nmemb * sz) of
        None \<Rightarrow> None
      | Some (Inl f) \<Rightarrow> Some (Inl f)
      | Some (Inr (st1, result)) \<Rightarrow> Some (Inr (memset st1 result 0 (nmemb * sz), result)))"

section \<open>Deallocation\<close>

text \<open>The walk over the region of the freed block: (\<^verbatim>\<open>region_empty\<close>, \<^verbatim>\<open>current\<close>) at loop exit.\<close>

partial_function (option) region_walk ::
    "state \<Rightarrow> addr \<Rightarrow> addr \<Rightarrow> addr \<Rightarrow> (fault + bool \<times> addr) option" where
  "region_walk st region_head region_end current =
     (if current \<noteq> 0 \<and> current \<ge> region_head \<and> current < region_end then
        (case load st current of
           None \<Rightarrow> Some (Inl Segfault)
         | Some b \<Rightarrow>
             if usage b \<noteq> 0 then Some (Inr (False, current))
             else region_walk st region_head region_end (next_blk b))
      else Some (Inr (True, current)))"

text \<open>The search for the header in front of the unmapped region.\<close>

partial_function (option) find_pred :: "state \<Rightarrow> addr \<Rightarrow> addr \<Rightarrow> (fault + addr) option" where
  "find_pred st region_head current =
     (case load st current of
        None \<Rightarrow> Some (Inl Segfault)
      | Some b \<Rightarrow>
          if next_blk b \<noteq> 0 \<and> next_blk b \<noteq> region_head
          then find_pred st region_head (next_blk b)
          else Some (Inr current))"

text \<open>
  \<^verbatim>\<open>munmap\<close>: \<open>munmap_ok\<close> is the operating system's answer (\<open>True\<close> for return
  value 0). A successful call removes the mapping; the headers that lay in it are gone.
\<close>

definition munmap :: "bool \<Rightarrow> state \<Rightarrow> addr \<Rightarrow> size_t \<Rightarrow> state" where
  "munmap munmap_ok st p len =
     (if munmap_ok
      then st\<lparr>heap := (\<lambda>x. if in_range p len x then None else heap st x),
              mapped := filter (\<lambda>r. r \<noteq> (p, len)) (mapped st)\<rparr>
      else perror ''munmap'' st)"

definition free_unsafe :: "env \<Rightarrow> bool \<Rightarrow> state \<Rightarrow> addr \<Rightarrow> (fault + state) option" where
  "free_unsafe e munmap_ok st ptr =
     (if ptr = 0 then Some (Inr st)
      else
        let current = ptr - sizeof_mem_block e
        in case load st current of
             None \<Rightarrow> Some (Inl Segfault)
           | Some c \<Rightarrow>
               let st1 = store st current (c\<lparr>usage := 0\<rparr>);
                   region_head = region_start c
               in case load st1 region_head of
                    None \<Rightarrow> Some (Inl Segfault)
                  | Some rh \<Rightarrow>
                      let region_end = region_head + region_size rh
                      in case region_walk st1 region_head region_end region_head of
                           None \<Rightarrow> None
                         | Some (Inl f) \<Rightarrow> Some (Inl f)
                         | Some (Inr (region_empty, next_region)) \<Rightarrow>
                             if \<not> region_empty then Some (Inr st1)
                             else
                               let st2 = munmap munmap_ok st1 region_head (region_size rh)
                               in if g_head st2 = region_head
                                  then Some (Inr (st2\<lparr>g_head := next_region\<rparr>))
                                  else case find_pred st2 region_head (g_head st2) of
                                         None \<Rightarrow> None
                                       | Some (Inl f) \<Rightarrow> Some (Inl f)
                                       | Some (Inr cur) \<Rightarrow>
                                           (case load st2 cur of
                                              None \<Rightarrow> Some (Inl Segfault)
                                            | Some cb \<Rightarrow>
                                                if next_blk cb \<noteq> 0
                                                then Some (Inr (store st2 cur (cb\<lparr>next_blk := next_region\<rparr>)))
                                                else Some (Inr st2)))"


section \<open>Reallocation\<close>

definition realloc_unsafe ::
    "env \<Rightarrow> addr option \<Rightarrow> bool \<Rightarrow> state \<Rightarrow> addr \<Rightarrow> size_t \<Rightarrow> (fault + state \<times> addr) option" where
  "realloc_unsafe e mmap_ret munmap_ok st ptr sz0 =
     (if ptr = 0 then malloc_unsafe e mmap_ret st sz0
      else if sz0 = 0 then
        (case free_unsafe e munmap_ok st ptr of
           None \<Rightarrow> None
         | Some (Inl f) \<Rightarrow> Some (Inl f)
         | Some (Inr st1) \<Rightarrow> Some (Inr (st1, 0)))
      else
        let sz = align8 sz0;
            actual_size = sz + sizeof_mem_block e;
            current = ptr - sizeof_mem_block e
        in case load st current of
             None \<Rightarrow> Some (Inl Segfault)
           | Some c \<Rightarrow>
               if size_blk c \<ge> actual_size
               then Some (Inr (store st current (c\<lparr>usage := actual_size\<rparr>), ptr))
               else
                 (case malloc_unsafe e mmap_ret st sz of
                    None \<Rightarrow> None
                  | Some (Inl f) \<Rightarrow> Some (Inl f)
                  | Some (Inr (st1, new)) \<Rightarrow>
                      (case free_unsafe e munmap_ok (memcpy st1 new ptr sz) ptr of
                         None \<Rightarrow> None
                       | Some (Inl f) \<Rightarrow> Some (Inl f)
                       | Some (Inr st3) \<Rightarrow> Some (Inr (st3, new)))))"


section \<open>Public calls\<close>



section \<open>Introspection dump\<close>

text \<open>
  \<^verbatim>\<open>write_pointer\<close> and \<^verbatim>\<open>write_unsigned\<close> produce the characters they write to the
  stream; \<^verbatim>\<open>write_memory\<close> returns the whole output.
\<close>

definition hexdigit :: "64 word \<Rightarrow> char" where
  "hexdigit d = ''0123456789abcdef'' ! unat d"

fun write_pointer_loop :: "64 word \<Rightarrow> nat list \<Rightarrow> bool \<Rightarrow> string" where
  "write_pointer_loop ptr_num [] printed = []"
| "write_pointer_loop ptr_num (i # is) printed =
     (if (drop_bit i ptr_num) AND 0xf = 0 \<and> \<not> printed
      then write_pointer_loop ptr_num is printed
      else hexdigit ((drop_bit i ptr_num) AND 0xf) # write_pointer_loop ptr_num is True)"

definition write_pointer :: "addr \<Rightarrow> string" where
  "write_pointer ptr =
     (if ptr = 0 then ''(nil)''
      else ''0x'' @ write_pointer_loop ptr [60, 56, 52, 48, 44, 40, 36, 32, 28, 24, 20, 16, 12, 8, 4, 0] False)"

lemma scale_step:
  assumes "num div p div 10 \<noteq> (0 :: size_t)"
  shows "unat (p * 10) = unat p * 10" "unat p * 10 \<le> unat num" "0 < unat p"
proof -
  have "unat (num div p div 10) \<noteq> 0" using assms by (simp add: unat_eq_0)
  then have n: "unat num div unat p div 10 \<noteq> 0" by (simp add: unat_div)
  then show le: "unat p * 10 \<le> unat num"
    by (metis div_greater_zero_iff div_mult2_eq nat_0_less_mult_iff neq0_conv)
  from n show "0 < unat p"
    by (metis div_by_0 div_less neq0_conv zero_less_numeral)
  have "unat num < 2 ^ 64" using unsigned_less [of num, where 'a=nat] by simp
  with le have "unat p * 10 < 2 ^ 64" by simp
  then show "unat (p * 10) = unat p * 10" by (simp add: unat_word_ariths)
qed

function write_unsigned_scale :: "size_t \<Rightarrow> size_t \<Rightarrow> size_t" where
  "write_unsigned_scale num p =
     (if num div p div 10 \<noteq> 0 then write_unsigned_scale num (p * 10) else p)"
  by pat_completeness auto
termination
proof (relation "measure (\<lambda>(num, p). unat num - unat p)")
  show "wf (measure (\<lambda>(num :: size_t, p :: size_t). unat num - unat p))" by simp
next
  fix num p :: size_t
  assume a: "num div p div 10 \<noteq> 0"
  from scale_step [OF a]
  show "((num, p * 10), (num, p)) \<in> measure (\<lambda>(num, p). unat num - unat p)"
    by simp
qed

function write_unsigned_digits :: "size_t \<Rightarrow> size_t \<Rightarrow> string" where
  "write_unsigned_digits num p =
     (if p > 0
      then char_of (of_char (CHR ''0'') + unat (num div p mod 10)) # write_unsigned_digits num (p div 10)
      else [])"
  by pat_completeness auto
termination
proof (relation "measure (\<lambda>(num, p). unat p)")
  show "wf (measure (\<lambda>(num :: size_t, p :: size_t). unat p))" by simp
next
  fix num p :: size_t
  assume "0 < p"
  then have "0 < unat p" by (simp add: word_less_nat_alt)
  then show "((num, p div 10), (num, p)) \<in> measure (\<lambda>(num, p). unat p)"
    by (simp add: unat_div)
qed

definition write_unsigned :: "size_t \<Rightarrow> string" where
  "write_unsigned num =
     (if num = 0 then ''0'' else write_unsigned_digits num (write_unsigned_scale num 1))"

definition region_line :: "addr \<Rightarrow> mem_block \<Rightarrow> string" where
  "region_line current_block b =
     ''[REGION] '' @ write_pointer current_block @ ''-'' @
     write_pointer (current_block + region_size b) @ '' '' @
     write_unsigned (region_size b) @ [CHR 0x0A]"

definition block_line :: "env \<Rightarrow> addr \<Rightarrow> mem_block \<Rightarrow> string" where
  "block_line e current_block b =
     ''[BLOCK]  '' @ write_pointer current_block @ ''-'' @
     write_pointer (current_block + region_size b) @ '' ('' @
     write_unsigned (alloc_id b) @ '') '' @ [CHR 0x27] @ name b @ [CHR 0x27] @ '' '' @
     write_unsigned (size_blk b) @ '' '' @
     write_unsigned (usage b) @ '' '' @
     write_unsigned (if usage b = 0 then 0 else usage b - sizeof_mem_block e) @ [CHR 0x0A]"

partial_function (option) write_memory_loop ::
    "env \<Rightarrow> state \<Rightarrow> addr \<Rightarrow> string \<Rightarrow> (fault + string) option" where
  "write_memory_loop e st current_block out =
     (if current_block = 0 then Some (Inr out)
      else case load st current_block of
             None \<Rightarrow> Some (Inl Segfault)
           | Some b \<Rightarrow>
               write_memory_loop e st (next_blk b)
                 (out @ (if region_start b = current_block then region_line current_block b else [])
                      @ block_line e current_block b))"

definition write_memory :: "env \<Rightarrow> state \<Rightarrow> (fault + string) option" where
  "write_memory e st = write_memory_loop e st (g_head st) (''-- Current Memory State --'' @ [CHR 0x0A])"

section \<open>Concrete configuration and states\<close>

text \<open>
  A 64-bit Linux configuration: an 80-byte header with a 32-byte name array, 4096-byte
  pages, both environment variables unset. The process starts with an empty list and
  the allocation counter at 0.
\<close>

definition env0 :: env where
  "env0 = \<lparr>sizeof_mem_block = 80, name_capacity = 32, page_sz = 4096,
           ALLOCATOR_ALGORITHM = None, ALLOCATOR_SCRIBBLE = None\<rparr>"

definition init_state :: state where
  "init_state = \<lparr>g_head = 0, g_allocations = 0, heap = Map.empty, mem = (\<lambda>x. 0),
                 mapped = [], errlog = []\<rparr>"

text \<open>One region at \<open>0x7fbb48ea1000\<close> holding a single block in use (after \<^verbatim>\<open>malloc(16)\<close>).\<close>

definition blk_one :: mem_block where
  "blk_one = \<lparr>alloc_id = 0, name = [], size_blk = 4096, usage = 96,
              region_start = 0x7fbb48ea1000, region_size = 4096, next_blk = 0\<rparr>"

definition st_one :: state where
  "st_one = \<lparr>g_head = 0x7fbb48ea1000, g_allocations = 1,
             heap = [0x7fbb48ea1000 \<mapsto> blk_one], mem = (\<lambda>x. 0),
             mapped = [(0x7fbb48ea1000, 4096)], errlog = []\<rparr>"

text \<open>The same region after a second \<^verbatim>\<open>malloc(16)\<close>: two blocks in use.\<close>

definition blk_two :: mem_block where
  "blk_two = \<lparr>alloc_id = 1, name = [], size_blk = 4000, usage = 96,
              region_start = 0x7fbb48ea1000, region_size = 4096, next_blk = 0\<rparr>"

definition st_two :: state where
  "st_two = \<lparr>g_head = 0x7fbb48ea1000, g_allocations = 2,
             heap = [0x7fbb48ea1060 \<mapsto> blk_two,
                     0x7fbb48ea1000 \<mapsto> blk_one\<lparr>size_blk := 96, next_blk := 0x7fbb48ea1060\<rparr>],
             mem = (\<lambda>x. 0), mapped = [(0x7fbb48ea1000, 4096)], errlog = []\<rparr>"

text \<open>
  Two regions: the first as in \<open>st_one\<close>, the second at \<open>0x7fbb48e6f000\<close> acquired by
  \<^verbatim>\<open>malloc(4000)\<close>.
\<close>

definition blk_far :: mem_block where
  "blk_far = \<lparr>alloc_id = 1, name = [], size_blk = 4096, usage = 4080,
              region_start = 0x7fbb48e6f000, region_size = 4096, next_blk = 0\<rparr>"

definition st_far :: state where
  "st_far = \<lparr>g_head = 0x7fbb48ea1000, g_allocations = 2,
             heap = [0x7fbb48ea1000 \<mapsto> blk_one\<lparr>next_blk := 0x7fbb48e6f000\<rparr>,
                     0x7fbb48e6f000 \<mapsto> blk_far],
             mem = (\<lambda>x. 0),
             mapped = [(0x7fbb48e6f000, 4096), (0x7fbb48ea1000, 4096)], errlog = []\<rparr>"

text \<open>The two-block region after \<^verbatim>\<open>free\<close> of the first block.\<close>

definition st_three :: state where
  "st_three = st_two\<lparr>heap := (heap st_two)(0x7fbb48ea1000 \<mapsto>
                 blk_one\<lparr>size_blk := 96, next_blk := 0x7fbb48ea1060, usage := 0\<rparr>)\<rparr>"

section \<open>The list as a sequence of addresses\<close>

text \<open>
  \<open>path st p as q\<close>: following \<^verbatim>\<open>next\<close> from \<open>p\<close> visits the headers \<open>as\<close> in order
  and arrives at \<open>q\<close>. The global list is a path from \<^verbatim>\<open>g_head\<close> to \<^verbatim>\<open>NULL\<close>.
  A header \<open>fits\<close> a needed size by the test the three searches make; its \<open>slack\<close> is
  the difference they compare. \<open>best_step\<close> and \<open>worst_step\<close> are one round of the
  loops of \<^verbatim>\<open>best_fit\<close> and \<^verbatim>\<open>worst_fit\<close>. \<open>earliest_min g xs r\<close> says that \<open>r\<close> is
  the first element of \<open>xs\<close> among those with the least \<open>g\<close>.
\<close>

fun path :: "state \<Rightarrow> addr \<Rightarrow> addr list \<Rightarrow> addr \<Rightarrow> bool" where
  "path st p [] q = (p = q)"
| "path st p (a # as) q =
     (p = a \<and> (case load st a of None \<Rightarrow> False | Some b \<Rightarrow> path st (next_blk b) as q))"

definition chain :: "state \<Rightarrow> addr list \<Rightarrow> bool" where
  "chain st as = path st (g_head st) as 0"

definition fits :: "state \<Rightarrow> size_t \<Rightarrow> addr \<Rightarrow> bool" where
  "fits st sz a = (case load st a of None \<Rightarrow> False | Some b \<Rightarrow> sz + usage b \<le> size_blk b)"

definition slack :: "state \<Rightarrow> addr \<Rightarrow> size_t" where
  "slack st a = (case load st a of None \<Rightarrow> 0 | Some b \<Rightarrow> size_blk b - usage b)"

definition best_step :: "state \<Rightarrow> size_t \<Rightarrow> addr \<Rightarrow> addr \<Rightarrow> addr" where
  "best_step st sz a best =
     (if fits st sz a \<and> (best = 0 \<or> slack st a < slack st best) then a else best)"

definition worst_step :: "state \<Rightarrow> size_t \<Rightarrow> addr \<Rightarrow> addr \<Rightarrow> addr" where
  "worst_step st sz a worst =
     (if fits st sz a \<and> (worst = 0 \<or> slack st a > slack st worst) then a else worst)"

definition earliest_min :: "(addr \<Rightarrow> size_t) \<Rightarrow> addr list \<Rightarrow> addr \<Rightarrow> bool" where
  "earliest_min g xs r =
     (\<exists>pre post. xs = pre @ r # post \<and> (\<forall>y\<in>set pre. g r < g y) \<and> (\<forall>y\<in>set post. g r \<le> g y))"

definition earliest_max :: "(addr \<Rightarrow> size_t) \<Rightarrow> addr list \<Rightarrow> addr \<Rightarrow> bool" where
  "earliest_max g xs r =
     (\<exists>pre post. xs = pre @ r # post \<and> (\<forall>y\<in>set pre. g y < g r) \<and> (\<forall>y\<in>set post. g y \<le> g r))"


section \<open>Invariants\<close>

text \<open>Every header carries an allocation id below the counter.\<close>

definition ids_below :: "state \<Rightarrow> bool" where
  "ids_below st = (\<forall>a b. heap st a = Some b \<longrightarrow> alloc_id b < g_allocations st)"

section \<open>Rounding to a multiple of 8\<close>







section \<open>State components left alone by the byte operations\<close>

lemma memset_fields [simp]:
  "heap (memset st p c n) = heap st"
  "g_allocations (memset st p c n) = g_allocations st"
  "g_head (memset st p c n) = g_head st"
  "mapped (memset st p c n) = mapped st"
  "errlog (memset st p c n) = errlog st"
  by (simp_all add: memset_def)

lemma memcpy_fields [simp]:
  "heap (memcpy st d s n) = heap st"
  "g_allocations (memcpy st d s n) = g_allocations st"
  "g_head (memcpy st d s n) = g_head st"
  "mapped (memcpy st d s n) = mapped st"
  "errlog (memcpy st d s n) = errlog st"
  by (simp_all add: memcpy_def)

lemma load_memset [simp]: "load (memset st p c n) x = load st x"
  by (simp add: load_def)

lemma load_memcpy [simp]: "load (memcpy st d s n) x = load st x"
  by (simp add: load_def)

section \<open>Evaluation on the concrete states\<close>

declare write_memory_loop.simps [code]

lemmas ex_defs = env0_def init_state_def st_one_def blk_one_def st_two_def blk_two_def st_three_def
  st_far_def blk_far_def

lemmas run_defs = malloc_unsafe_def choose_block_def reuse_def first_fit_def place_def
  align8_def load_def store_def expand_heap_def free_unsafe_def munmap_def in_range_def
  realloc_unsafe_def Let_def
  first_fit_loop.simps region_walk.simps find_pred.simps list_tail.simps








lemma place_header:
  "place st1 allocated a need = (st2, blk) \<Longrightarrow>
   \<exists>b. heap st2 blk = Some b \<and> usage b = need"
  by (auto simp: place_def store_def Let_def split: if_splits)

lemma malloc_unsafe_header:
  assumes "malloc_unsafe e r st s = Some (Inr (st', p))"
  shows "\<exists>b. heap st' (p - sizeof_mem_block e) = Some b \<and> usage b = align8 s + sizeof_mem_block e"
  using assms
  by (auto simp: malloc_unsafe_def Let_def split: option.splits sum.splits prod.splits if_splits
      dest: place_header)

section \<open>The allocation engine\<close>



text \<open>
  C5. When the placement search finds nothing and \<^verbatim>\<open>mmap\<close> fails, \<^verbatim>\<open>expand_heap\<close>
  logs the error and returns \<^verbatim>\<open>NULL\<close>, but \<^verbatim>\<open>malloc_unsafe\<close> reads
  \<^verbatim>\<open>allocated->size\<close> without a check: the public \<^verbatim>\<open>malloc\<close> faults instead of
  returning \<^verbatim>\<open>NULL\<close>. Evaluated on the empty list with a request of 16 bytes.
\<close>

theorem malloc_mmap_failure_segfault:
  "malloc env0 None init_state 16 = Some (Inl Segfault) \<and>
   reuse env0 init_state (align8 16 + sizeof_mem_block env0) = Some (Inr 0) \<and>
   expand_heap env0 None init_state (align8 16 + sizeof_mem_block env0) =
     Some (Inr (perror ''mmap'' init_state, 0))"
  by (simp add: malloc_def malloc_unsafe_def choose_block_def reuse_def first_fit_def
      expand_heap_def load_def env0_def init_state_def Let_def)

section \<open>Named allocation\<close>




section \<open>Zero-initialised allocation\<close>

text \<open>
  C10. \<^verbatim>\<open>calloc\<close> asks \<^verbatim>\<open>malloc_unsafe\<close> for \<open>nmemb * size\<close> computed in 64-bit
  arithmetic, that is the product modulo \<open>2^64\<close>, and zero-fills that many bytes; there
  is no overflow check. When the product of the two numbers is \<open>2^64\<close> or more, the
  zero-filled length and the bytes the block uses are both smaller than the product.
\<close>

theorem calloc_product_wraps:
  assumes "calloc e mmap_ret st nmemb sz = Some (Inr (st', p))"
  shows "unat (nmemb * sz) = (unat nmemb * unat sz) mod 2 ^ 64 \<and>
         (\<exists>st1. malloc_unsafe e mmap_ret st (nmemb * sz) = Some (Inr (st1, p)) \<and>
                st' = memset st1 p 0 (nmemb * sz)) \<and>
         (\<forall>x. in_range p (nmemb * sz) x \<longrightarrow> mem st' x = 0) \<and>
         (\<exists>b. heap st' (p - sizeof_mem_block e) = Some b \<and>
              usage b = align8 (nmemb * sz) + sizeof_mem_block e \<and>
              (2 ^ 64 \<le> unat nmemb * unat sz \<longrightarrow>
                 unat (nmemb * sz) < unat nmemb * unat sz \<and>
                 unat (usage b) < unat nmemb * unat sz))"
proof -
  from assms obtain st1 where m: "malloc_unsafe e mmap_ret st (nmemb * sz) = Some (Inr (st1, p))"
    and s': "st' = memset st1 p 0 (nmemb * sz)"
    by (auto simp: calloc_def split: option.splits sum.splits)
  from malloc_unsafe_header [OF m] obtain b where
    b: "heap st1 (p - sizeof_mem_block e) = Some b" "usage b = align8 (nmemb * sz) + sizeof_mem_block e"
    by blast
  have lt: "unat w < 2 ^ 64" for w :: "64 word"
    using unsigned_less [of w, where 'a=nat] by simp
  have "unat (nmemb * sz) = (unat nmemb * unat sz) mod 2 ^ 64"
    by (simp add: unat_word_ariths)
  moreover have "\<forall>x. in_range p (nmemb * sz) x \<longrightarrow> mem st' x = 0"
    by (simp add: s' memset_def)
  moreover have "heap st' (p - sizeof_mem_block e) = Some b" by (simp add: s' b)
  moreover have "2 ^ 64 \<le> unat nmemb * unat sz \<longrightarrow>
                 unat (nmemb * sz) < unat nmemb * unat sz \<and> unat (usage b) < unat nmemb * unat sz"
    using lt [of "nmemb * sz"] lt [of "usage b"] by auto
  ultimately show ?thesis using m s' b by blast
qed

theorem calloc_product_wraps_witness:
  "\<exists>st' b. calloc env0 (Some 0x7fbb48ea1000) init_state (2 ^ 61 + 1) 8 = Some (Inr (st', 0x7fbb48ea1050)) \<and>
     unat ((2 ^ 61 + 1 :: size_t) * 8) = 8 \<and>
     (2 :: nat) ^ 64 \<le> unat (2 ^ 61 + 1 :: size_t) * unat (8 :: size_t) \<and>
     in_range 0x7fbb48ea1050 8 0x7fbb48ea1050 \<and> mem st' 0x7fbb48ea1050 = 0 \<and>
     heap st' 0x7fbb48ea1000 = Some b \<and> usage b = 88"
proof -
  have z: "(2 ^ 61 + 1 :: size_t) * 8 = 8" by simp
  have "\<exists>st'. calloc env0 (Some 0x7fbb48ea1000) init_state (2 ^ 61 + 1) 8 =
           Some (Inr (st', 0x7fbb48ea1050))"
    unfolding calloc_def z by (simp add: run_defs ex_defs)
  then obtain st' where c: "calloc env0 (Some 0x7fbb48ea1000) init_state (2 ^ 61 + 1) 8 =
           Some (Inr (st', 0x7fbb48ea1050))" ..
  have r: "in_range 0x7fbb48ea1050 8 0x7fbb48ea1050" by (simp add: in_range_def)
  note th = calloc_product_wraps [OF c, unfolded z]
  from th r have m: "mem st' 0x7fbb48ea1050 = 0" by blast
  from th obtain b where
    "heap st' (0x7fbb48ea1050 - sizeof_mem_block env0) = Some b"
    "usage b = align8 8 + sizeof_mem_block env0"
    by blast
  then have "heap st' 0x7fbb48ea1000 = Some b" "usage b = 88"
    by (simp_all add: env0_def align8_def)
  moreover have "unat ((2 ^ 61 + 1 :: size_t) * 8) = 8" by (simp add: z)
  moreover have "(2 :: nat) ^ 64 \<le> unat (2 ^ 61 + 1 :: size_t) * unat (8 :: size_t)" by simp
  ultimately show ?thesis using c r m by blast
qed

section \<open>Reallocation\<close>



section \<open>The dump\<close>

text \<open>
  C9. The \<^verbatim>\<open>[BLOCK]\<close> line of \<^verbatim>\<open>write_memory\<close> does not give the block's own bounds:
  its end is \<^verbatim>\<open>current_block + current_block->region_size\<close>, not the start plus the
  block's size. Evaluated on the region with two blocks: the first block (size 96) is
  printed as ending at \<open>0x7fbb48ea2000\<close> instead of \<open>0x7fbb48ea1060\<close>, the second
  (size 4000) as ending at \<open>0x7fbb48ea2060\<close> instead of \<open>0x7fbb48ea2000\<close>.
\<close>

theorem write_memory_block_bounds:
  "write_memory env0 st_two = Some (Inr
     (''-- Current Memory State --'' @ [CHR 0x0A] @
      ''[REGION] 0x7fbb48ea1000-0x7fbb48ea2000 4096'' @ [CHR 0x0A] @
      ''[BLOCK]  0x7fbb48ea1000-0x7fbb48ea2000 (0) '' @ [CHR 0x27, CHR 0x27] @ '' 96 96 16'' @ [CHR 0x0A] @
      ''[BLOCK]  0x7fbb48ea1060-0x7fbb48ea2060 (1) '' @ [CHR 0x27, CHR 0x27] @ '' 4000 96 16'' @ [CHR 0x0A])) \<and>
   write_pointer (0x7fbb48ea1000 + size_blk (blk_one\<lparr>size_blk := 96, next_blk := 0x7fbb48ea1060\<rparr>))
     = ''0x7fbb48ea1060'' \<and>
   write_pointer (0x7fbb48ea1060 + size_blk blk_two) = ''0x7fbb48ea2000''"
  by code_simp

section \<open>Allocation ids\<close>






lemma ids_below_memset [simp]: "ids_below (memset st p c n) = ids_below st"
  by (simp add: ids_below_def)

lemma ids_below_memcpy [simp]: "ids_below (memcpy st d s n) = ids_below st"
  by (simp add: ids_below_def)










section \<open>Placement search\<close>


lemma path_nonnull: "path st p as q \<Longrightarrow> 0 \<notin> set as"
  by (induction as arbitrary: p) (auto simp: load_def split: option.splits if_splits)

lemma path_append:
  "path st p (as @ bs) q = (\<exists>m. path st p as m \<and> path st m bs q)"
  by (induction as arbitrary: p) (auto split: option.splits)

lemma path_loaded: "path st p as q \<Longrightarrow> x \<in> set as \<Longrightarrow> \<exists>b. load st x = Some b"
  by (induction as arbitrary: p) (auto split: option.splits)

lemma path_hd: "path st p (a # as) q \<Longrightarrow> p = a"
  by simp

lemma first_fit_loop_path:
  "path st p as 0 \<Longrightarrow>
   first_fit_loop st sz p = Some (Inr (case filter (fits st sz) as of [] \<Rightarrow> 0 | c # cs \<Rightarrow> c))"
proof (induction as arbitrary: p)
  case Nil
  then show ?case by (simp add: first_fit_loop.simps)
next
  case (Cons a as)
  then obtain b where b: "p = a" "load st a = Some b" "path st (next_blk b) as 0"
    by (auto split: option.splits)
  then have nz: "a \<noteq> 0" by (auto simp: load_def split: if_splits)
  have fa: "fits st sz a = (sz + usage b \<le> size_blk b)" using b by (simp add: fits_def)
  show ?case
  proof (cases "fits st sz a")
    case True
    with b nz fa show ?thesis by (subst first_fit_loop.simps) simp
  next
    case False
    with b nz fa Cons.IH [OF b(3)] show ?thesis
      by (subst first_fit_loop.simps) simp
  qed
qed

lemma best_fit_loop_path:
  "path st p as 0 \<Longrightarrow> best = 0 \<or> (\<exists>bb. load st best = Some bb) \<Longrightarrow>
   best_fit_loop st sz p best = Some (Inr (fold (best_step st sz) as best))"
proof (induction as arbitrary: p best)
  case Nil
  then show ?case by (simp add: best_fit_loop.simps)
next
  case (Cons a as)
  then obtain b where b: "p = a" "load st a = Some b" "path st (next_blk b) as 0"
    by (auto split: option.splits)
  then have nz: "a \<noteq> 0" by (auto simp: load_def split: if_splits)
  have ok: "best_step st sz a best = 0 \<or> (\<exists>bb. load st (best_step st sz a best) = Some bb)"
    using Cons.prems(2) b by (auto simp: best_step_def)
  from Cons.IH [OF b(3) ok]
  have ih: "best_fit_loop st sz (next_blk b) (best_step st sz a best) =
            Some (Inr (fold (best_step st sz) (a # as) best))" by simp
  show ?case
    using b nz Cons.prems(2) ih
    by (subst best_fit_loop.simps) (auto simp: best_step_def fits_def slack_def)
qed

lemma worst_fit_loop_path:
  "path st p as 0 \<Longrightarrow> worst = 0 \<or> (\<exists>bb. load st worst = Some bb) \<Longrightarrow>
   worst_fit_loop st sz p worst = Some (Inr (fold (worst_step st sz) as worst))"
proof (induction as arbitrary: p worst)
  case Nil
  then show ?case by (simp add: worst_fit_loop.simps)
next
  case (Cons a as)
  then obtain b where b: "p = a" "load st a = Some b" "path st (next_blk b) as 0"
    by (auto split: option.splits)
  then have nz: "a \<noteq> 0" by (auto simp: load_def split: if_splits)
  have ok: "worst_step st sz a worst = 0 \<or> (\<exists>bb. load st (worst_step st sz a worst) = Some bb)"
    using Cons.prems(2) b by (auto simp: worst_step_def)
  from Cons.IH [OF b(3) ok]
  have ih: "worst_fit_loop st sz (next_blk b) (worst_step st sz a worst) =
            Some (Inr (fold (worst_step st sz) (a # as) worst))" by simp
  show ?case
    using b nz Cons.prems(2) ih
    by (subst worst_fit_loop.simps) (auto simp: worst_step_def fits_def slack_def)
qed

lemma fold_best_step_from:
  "b \<noteq> 0 \<Longrightarrow> 0 \<notin> set as \<Longrightarrow>
   (fold (best_step st sz) as b = b \<and> (\<forall>y\<in>set (filter (fits st sz) as). slack st b \<le> slack st y)) \<or>
   (\<exists>pre post. filter (fits st sz) as = pre @ fold (best_step st sz) as b # post \<and>
       slack st (fold (best_step st sz) as b) < slack st b \<and>
       (\<forall>y\<in>set pre. slack st (fold (best_step st sz) as b) < slack st y) \<and>
       (\<forall>y\<in>set post. slack st (fold (best_step st sz) as b) \<le> slack st y))"
proof (induction as arbitrary: b)
  case Nil
  then show ?case by simp
next
  case (Cons a as)
  let ?r = "fold (best_step st sz) as"
  have a0: "a \<noteq> 0" and as0: "0 \<notin> set as" using Cons.prems(2) by auto
  show ?case
  proof (cases "fits st sz a \<and> slack st a < slack st b")
    case True
    then have s: "best_step st sz a b = a" by (simp add: best_step_def)
    from Cons.IH [OF a0 as0]
    consider (keep) "?r a = a" "\<forall>y\<in>set (filter (fits st sz) as). slack st a \<le> slack st y"
      | (move) pre post where "filter (fits st sz) as = pre @ ?r a # post"
          "slack st (?r a) < slack st a"
          "\<forall>y\<in>set pre. slack st (?r a) < slack st y"
          "\<forall>y\<in>set post. slack st (?r a) \<le> slack st y"
      by blast
    then show ?thesis
    proof cases
      case keep
      have "filter (fits st sz) (a # as) = [] @ a # filter (fits st sz) as" using True by simp
      with keep True s show ?thesis
        by (intro disjI2) (rule exI [of _ "[]"], rule exI [of _ "filter (fits st sz) as"], simp)
    next
      case move
      have "filter (fits st sz) (a # as) = (a # pre) @ ?r a # post" using True move(1) by simp
      moreover have "slack st (?r a) < slack st b" using move(2) True by auto
      ultimately show ?thesis using move s True
        by (intro disjI2) (rule exI [of _ "a # pre"], rule exI [of _ post], simp)
    qed
  next
    case False
    then have s: "best_step st sz a b = b" using Cons.prems(1) by (auto simp: best_step_def)
    from Cons.IH [OF Cons.prems(1) as0]
    consider (keep) "?r b = b" "\<forall>y\<in>set (filter (fits st sz) as). slack st b \<le> slack st y"
      | (move) pre post where "filter (fits st sz) as = pre @ ?r b # post"
          "slack st (?r b) < slack st b"
          "\<forall>y\<in>set pre. slack st (?r b) < slack st y"
          "\<forall>y\<in>set post. slack st (?r b) \<le> slack st y"
      by blast
    then show ?thesis
    proof cases
      case keep
      with False s show ?thesis by auto
    next
      case move
      show ?thesis
      proof (cases "fits st sz a")
        case fa: True
        with False have "slack st b \<le> slack st a" by simp
        with move(2) have lt: "slack st (?r b) < slack st a" by auto
        have "filter (fits st sz) (a # as) = (a # pre) @ ?r b # post" using fa move(1) by simp
        with move lt s show ?thesis
          by (intro disjI2) (rule exI [of _ "a # pre"], rule exI [of _ post], simp)
      next
        case nf: False
        then have "filter (fits st sz) (a # as) = pre @ ?r b # post" using move(1) by simp
        with move s show ?thesis
          by (intro disjI2) (rule exI [of _ pre], rule exI [of _ post], simp)
      qed
    qed
  qed
qed

lemma fold_best_step:
  "0 \<notin> set as \<Longrightarrow>
   (filter (fits st sz) as = [] \<and> fold (best_step st sz) as 0 = 0) \<or>
   earliest_min (slack st) (filter (fits st sz) as) (fold (best_step st sz) as 0)"
proof (induction as)
  case Nil
  then show ?case by simp
next
  case (Cons a as)
  have a0: "a \<noteq> 0" and as0: "0 \<notin> set as" using Cons.prems by auto
  show ?case
  proof (cases "fits st sz a")
    case False
    then have "best_step st sz a 0 = 0" by (simp add: best_step_def)
    with False Cons.IH [OF as0] show ?thesis by simp
  next
    case True
    then have s: "best_step st sz a 0 = a" by (simp add: best_step_def)
    let ?r = "fold (best_step st sz) as a"
    from fold_best_step_from [OF a0 as0, of st sz]
    consider (keep) "?r = a" "\<forall>y\<in>set (filter (fits st sz) as). slack st a \<le> slack st y"
      | (move) pre post where "filter (fits st sz) as = pre @ ?r # post"
          "slack st ?r < slack st a"
          "\<forall>y\<in>set pre. slack st ?r < slack st y"
          "\<forall>y\<in>set post. slack st ?r \<le> slack st y"
      by blast
    then show ?thesis
    proof cases
      case keep
      have "filter (fits st sz) (a # as) = [] @ a # filter (fits st sz) as" using True by simp
      with keep s show ?thesis
        unfolding earliest_min_def
        by (intro disjI2) (rule exI [of _ "[]"], rule exI [of _ "filter (fits st sz) as"], simp)
    next
      case move
      have "filter (fits st sz) (a # as) = (a # pre) @ ?r # post" using True move(1) by simp
      with move s show ?thesis
        unfolding earliest_min_def
        by (intro disjI2) (rule exI [of _ "a # pre"], rule exI [of _ post], simp)
    qed
  qed
qed

lemma fold_worst_step_from:
  "b \<noteq> 0 \<Longrightarrow> 0 \<notin> set as \<Longrightarrow>
   (fold (worst_step st sz) as b = b \<and> (\<forall>y\<in>set (filter (fits st sz) as). slack st y \<le> slack st b)) \<or>
   (\<exists>pre post. filter (fits st sz) as = pre @ fold (worst_step st sz) as b # post \<and>
       slack st b < slack st (fold (worst_step st sz) as b) \<and>
       (\<forall>y\<in>set pre. slack st y < slack st (fold (worst_step st sz) as b)) \<and>
       (\<forall>y\<in>set post. slack st y \<le> slack st (fold (worst_step st sz) as b)))"
proof (induction as arbitrary: b)
  case Nil
  then show ?case by simp
next
  case (Cons a as)
  let ?r = "fold (worst_step st sz) as"
  have a0: "a \<noteq> 0" and as0: "0 \<notin> set as" using Cons.prems(2) by auto
  show ?case
  proof (cases "fits st sz a \<and> slack st b < slack st a")
    case True
    then have s: "worst_step st sz a b = a" by (simp add: worst_step_def)
    from Cons.IH [OF a0 as0]
    consider (keep) "?r a = a" "\<forall>y\<in>set (filter (fits st sz) as). slack st y \<le> slack st a"
      | (move) pre post where "filter (fits st sz) as = pre @ ?r a # post"
          "slack st a < slack st (?r a)"
          "\<forall>y\<in>set pre. slack st y < slack st (?r a)"
          "\<forall>y\<in>set post. slack st y \<le> slack st (?r a)"
      by blast
    then show ?thesis
    proof cases
      case keep
      have "filter (fits st sz) (a # as) = [] @ a # filter (fits st sz) as" using True by simp
      with keep True s show ?thesis
        by (intro disjI2) (rule exI [of _ "[]"], rule exI [of _ "filter (fits st sz) as"], simp)
    next
      case move
      have "filter (fits st sz) (a # as) = (a # pre) @ ?r a # post" using True move(1) by simp
      moreover have "slack st b < slack st (?r a)" using move(2) True by auto
      ultimately show ?thesis using move s True
        by (intro disjI2) (rule exI [of _ "a # pre"], rule exI [of _ post], simp)
    qed
  next
    case False
    then have s: "worst_step st sz a b = b" using Cons.prems(1) by (auto simp: worst_step_def)
    from Cons.IH [OF Cons.prems(1) as0]
    consider (keep) "?r b = b" "\<forall>y\<in>set (filter (fits st sz) as). slack st y \<le> slack st b"
      | (move) pre post where "filter (fits st sz) as = pre @ ?r b # post"
          "slack st b < slack st (?r b)"
          "\<forall>y\<in>set pre. slack st y < slack st (?r b)"
          "\<forall>y\<in>set post. slack st y \<le> slack st (?r b)"
      by blast
    then show ?thesis
    proof cases
      case keep
      with False s show ?thesis by auto
    next
      case move
      show ?thesis
      proof (cases "fits st sz a")
        case fa: True
        with False have "slack st a \<le> slack st b" by simp
        with move(2) have lt: "slack st a < slack st (?r b)" by auto
        have "filter (fits st sz) (a # as) = (a # pre) @ ?r b # post" using fa move(1) by simp
        with move lt s show ?thesis
          by (intro disjI2) (rule exI [of _ "a # pre"], rule exI [of _ post], simp)
      next
        case nf: False
        then have "filter (fits st sz) (a # as) = pre @ ?r b # post" using move(1) by simp
        with move s show ?thesis
          by (intro disjI2) (rule exI [of _ pre], rule exI [of _ post], simp)
      qed
    qed
  qed
qed

lemma fold_worst_step:
  "0 \<notin> set as \<Longrightarrow>
   (filter (fits st sz) as = [] \<and> fold (worst_step st sz) as 0 = 0) \<or>
   earliest_max (slack st) (filter (fits st sz) as) (fold (worst_step st sz) as 0)"
proof (induction as)
  case Nil
  then show ?case by simp
next
  case (Cons a as)
  have a0: "a \<noteq> 0" and as0: "0 \<notin> set as" using Cons.prems by auto
  show ?case
  proof (cases "fits st sz a")
    case False
    then have "worst_step st sz a 0 = 0" by (simp add: worst_step_def)
    with False Cons.IH [OF as0] show ?thesis by simp
  next
    case True
    then have s: "worst_step st sz a 0 = a" by (simp add: worst_step_def)
    let ?r = "fold (worst_step st sz) as a"
    from fold_worst_step_from [OF a0 as0, of st sz]
    consider (keep) "?r = a" "\<forall>y\<in>set (filter (fits st sz) as). slack st y \<le> slack st a"
      | (move) pre post where "filter (fits st sz) as = pre @ ?r # post"
          "slack st a < slack st ?r"
          "\<forall>y\<in>set pre. slack st y < slack st ?r"
          "\<forall>y\<in>set post. slack st y \<le> slack st ?r"
      by blast
    then show ?thesis
    proof cases
      case keep
      have "filter (fits st sz) (a # as) = [] @ a # filter (fits st sz) as" using True by simp
      with keep s show ?thesis
        unfolding earliest_max_def
        by (intro disjI2) (rule exI [of _ "[]"], rule exI [of _ "filter (fits st sz) as"], simp)
    next
      case move
      have "filter (fits st sz) (a # as) = (a # pre) @ ?r # post" using True move(1) by simp
      with move s show ?thesis
        unfolding earliest_max_def
        by (intro disjI2) (rule exI [of _ "a # pre"], rule exI [of _ post], simp)
    qed
  qed
qed

lemma chain_nonnull: "chain st as \<Longrightarrow> 0 \<notin> set as"
  by (auto simp: chain_def dest: path_nonnull)

lemma chain_nil_iff: "chain st as \<Longrightarrow> (g_head st = 0) = (as = [])"
  by (cases as) (auto simp: chain_def load_def split: option.splits if_splits)

lemma first_fit_chain:
  assumes "chain st as"
  shows "first_fit st sz = Some (Inr (case filter (fits st sz) as of [] \<Rightarrow> 0 | c # cs \<Rightarrow> c))"
proof (cases "g_head st = 0")
  case True
  with chain_nil_iff [OF assms] show ?thesis by (simp add: first_fit_def)
next
  case False
  with first_fit_loop_path [of st "g_head st" as sz] assms show ?thesis
    by (simp add: first_fit_def chain_def)
qed

lemma best_fit_chain:
  assumes "chain st as"
  shows "best_fit st sz = Some (Inr (fold (best_step st sz) as 0))"
proof (cases "g_head st = 0")
  case True
  with chain_nil_iff [OF assms] show ?thesis by (simp add: best_fit_def)
next
  case False
  with best_fit_loop_path [of st "g_head st" as 0 sz] assms show ?thesis
    by (simp add: best_fit_def chain_def)
qed

lemma worst_fit_chain:
  assumes "chain st as"
  shows "worst_fit st sz = Some (Inr (fold (worst_step st sz) as 0))"
proof (cases "g_head st = 0")
  case True
  with chain_nil_iff [OF assms] show ?thesis by (simp add: worst_fit_def)
next
  case False
  with worst_fit_loop_path [of st "g_head st" as 0 sz] assms show ?thesis
    by (simp add: worst_fit_def chain_def)
qed

lemma fits_slack:
  assumes "load st a = Some b" "usage b \<le> size_blk b" "unat sz + unat (usage b) < 2 ^ 64"
  shows "fits st sz a = (sz \<le> size_blk b - usage b)"
proof -
  have 1: "unat (sz + usage b) = unat sz + unat (usage b)"
    using assms(3) by (simp add: unat_word_ariths)
  have 2: "unat (size_blk b - usage b) = unat (size_blk b) - unat (usage b)"
    using assms(2) by (simp add: unat_sub)
  have 3: "unat (usage b) \<le> unat (size_blk b)" using assms(2) by (simp add: word_le_nat_alt)
  show ?thesis using assms(1) 1 2 3 by (auto simp: fits_def word_le_nat_alt)
qed

text \<open>
  On a well-formed list the three searches return what their names say: the first header
  that fits; the earliest header of least slack among those that fit; the earliest
  header of greatest slack among those that fit; the null pointer when none fits. An
  unset variable selects first-fit, an unknown value returns the null pointer. The test
  \<open>fits\<close> is \<open>size - usage \<ge> need\<close> as long as \<open>need + usage\<close> does not overflow.
\<close>

theorem reuse_policy:
  assumes c: "chain st as"
  shows "first_fit st sz = Some (Inr (case filter (fits st sz) as of [] \<Rightarrow> 0 | c # cs \<Rightarrow> c)) \<and>
         (\<exists>r. best_fit st sz = Some (Inr r) \<and>
              (filter (fits st sz) as = [] \<and> r = 0 \<or>
               earliest_min (slack st) (filter (fits st sz) as) r)) \<and>
         (\<exists>r. worst_fit st sz = Some (Inr r) \<and>
              (filter (fits st sz) as = [] \<and> r = 0 \<or>
               earliest_max (slack st) (filter (fits st sz) as) r)) \<and>
         reuse (e\<lparr>ALLOCATOR_ALGORITHM := None\<rparr>) st sz = first_fit st sz \<and>
         reuse (e\<lparr>ALLOCATOR_ALGORITHM := Some ''first_fit''\<rparr>) st sz = first_fit st sz \<and>
         reuse (e\<lparr>ALLOCATOR_ALGORITHM := Some ''best_fit''\<rparr>) st sz = best_fit st sz \<and>
         reuse (e\<lparr>ALLOCATOR_ALGORITHM := Some ''worst_fit''\<rparr>) st sz = worst_fit st sz \<and>
         (\<forall>algo. algo \<notin> {''first_fit'', ''best_fit'', ''worst_fit''} \<longrightarrow>
            reuse (e\<lparr>ALLOCATOR_ALGORITHM := Some algo\<rparr>) st sz = Some (Inr 0)) \<and>
         (\<forall>a b. load st a = Some b \<and> usage b \<le> size_blk b \<and> unat sz + unat (usage b) < 2 ^ 64 \<longrightarrow>
            fits st sz a = (sz \<le> size_blk b - usage b))"
proof -
  note nn = chain_nonnull [OF c]
  have "\<exists>r. best_fit st sz = Some (Inr r) \<and>
              (filter (fits st sz) as = [] \<and> r = 0 \<or>
               earliest_min (slack st) (filter (fits st sz) as) r)"
    using best_fit_chain [OF c] fold_best_step [OF nn] by simp
  moreover have "\<exists>r. worst_fit st sz = Some (Inr r) \<and>
              (filter (fits st sz) as = [] \<and> r = 0 \<or>
               earliest_max (slack st) (filter (fits st sz) as) r)"
    using worst_fit_chain [OF c] fold_worst_step [OF nn] by simp
  moreover have "\<forall>algo. algo \<notin> {''first_fit'', ''best_fit'', ''worst_fit''} \<longrightarrow>
            reuse (e\<lparr>ALLOCATOR_ALGORITHM := Some algo\<rparr>) st sz = Some (Inr 0)"
    by (simp add: reuse_def)
  moreover have "\<forall>a b. load st a = Some b \<and> usage b \<le> size_blk b \<and> unat sz + unat (usage b) < 2 ^ 64 \<longrightarrow>
            fits st sz a = (sz \<le> size_blk b - usage b)"
    using fits_slack by blast
  ultimately show ?thesis
    using first_fit_chain [OF c] by (simp add: reuse_def)
qed

text \<open>
  C4. The searches test \<^verbatim>\<open>current->size >= size + current->usage\<close> in 64-bit
  arithmetic. For a needed size whose sum with the usage overflows, a header is taken as
  a candidate although its slack is smaller than the need: with one block of size 4096
  and usage 96 in the list (slack 4000), \<^verbatim>\<open>malloc(0xFFFFFFFFFFFFFFA0)\<close> needs
  \<open>0xFFFFFFFFFFFFFFF0\<close> bytes, the search returns that block, and the call returns a
  pointer into it.
\<close>

theorem reuse_overflow_candidate:
  "align8 0xFFFFFFFFFFFFFFA0 + sizeof_mem_block env0 = 0xFFFFFFFFFFFFFFF0 \<and>
   load st_one 0x7fbb48ea1000 = Some blk_one \<and>
   size_blk blk_one - usage blk_one = 4000 \<and>
   \<not> (0xFFFFFFFFFFFFFFF0 :: size_t) \<le> size_blk blk_one - usage blk_one \<and>
   reuse env0 st_one (align8 0xFFFFFFFFFFFFFFA0 + sizeof_mem_block env0) = Some (Inr 0x7fbb48ea1000) \<and>
   (\<exists>st'. malloc env0 None st_one 0xFFFFFFFFFFFFFFA0 = Some (Inr (st', 0x7fbb48ea10b0)))"
  by (simp add: malloc_def run_defs ex_defs)

section \<open>Deallocation\<close>


lemma load_store_other: "x \<noteq> a \<Longrightarrow> load (store st a b) x = load st x"
  by (simp add: load_def store_def)


lemma load_g_head_update [simp]: "load (st\<lparr>g_head := h\<rparr>) x = load st x"
  by (simp add: load_def)


lemma range_no_wrap:
  assumes "unat r + unat n < 2 ^ 64"
  shows "(r \<le> x \<and> x < r + n) = in_range r n x"
proof -
  have e: "unat (r + n) = unat r + unat n" using assms by (simp add: unat_word_ariths)
  have s: "unat (x - r) = (if unat r \<le> unat x then unat x - unat r else unat x + 2 ^ 64 - unat r)"
    using unat_sub_if' [of x r] by simp
  show ?thesis
    using e s assms by (auto simp: in_range_def word_less_nat_alt word_le_nat_alt)
qed

lemma in_range_nat:
  assumes "unat r + unat n < 2 ^ 64"
  shows "in_range r n x = (unat r \<le> unat x \<and> unat x < unat r + unat n)"
proof -
  have e: "unat (r + n) = unat r + unat n" using assms by (simp add: unat_word_ariths)
  show ?thesis
    unfolding range_no_wrap [OF assms, symmetric]
    by (simp add: word_less_nat_alt word_le_nat_alt e)
qed



lemma g_head_munmap [simp]: "g_head (munmap mo st r n) = g_head st"
  by (simp add: munmap_def perror_def)

lemma g_head_store [simp]: "g_head (store st a b) = g_head st"
  by (simp add: store_def)







lemma malloc_one_4000:
  "malloc_unsafe env0 (Some 0x7fbb48e6f000) st_one 4000 = Some (Inr (st_far, 0x7fbb48e6f050))"
  by (simp add: run_defs ex_defs memset_def cong: if_cong)


end
